theory Spec2Isabelle
  imports Main "HOL-Library.Word" "HOL-Library.FSet"
begin

section \<open>Data model of syz-fuzzer/fuzzer.go\<close>

text \<open>
  Go's \<^verbatim>\<open>[]byte\<close> is a list of 8-bit words, a coverage token a 32-bit word, and a
  \<^verbatim>\<open>map[K]struct{}\<close> a finite set of keys. Programs (\<^verbatim>\<open>*prog.Prog\<close>), content hashes
  (\<^verbatim>\<open>hash.Sig\<close>) and system calls (\<^verbatim>\<open>*prog.Syscall\<close>) are opaque: the type variables
  \<open>'p\<close>, \<open>'h\<close> and \<open>'c\<close>.
\<close>

type_synonym byte = "8 word"
type_synonym uint32 = "32 word"
type_synonym error = string

text \<open>A Go panic, with the value it carries rendered as a string.\<close>

datatype panic = Panic string

text \<open>
  The messages of package rpctype, with the fields that fuzzer.go reads
  (\<^verbatim>\<open>inp.Prog\<close>, \<^verbatim>\<open>inp.Signal\<close>, \<^verbatim>\<open>candidate.Prog\<close>, \<^verbatim>\<open>candidate.Minimized\<close>,
  \<^verbatim>\<open>r.Candidates\<close>, \<^verbatim>\<open>r.NewInputs\<close>, \<^verbatim>\<open>r.MaxSignal\<close>) and writes
  (\<^verbatim>\<open>a.NeedCandidates\<close>, \<^verbatim>\<open>a.MaxSignal\<close>). The worker name and the statistics map
  of \<^verbatim>\<open>PollArgs\<close> are left out: no set, corpus or flag depends on them.
\<close>

record RpcInput =
  Prog :: "byte list"
  Signal :: "uint32 list"

record RpcCandidate =
  Prog :: "byte list"
  Minimized :: bool

record PollArgs =
  NeedCandidates :: bool
  MaxSignal :: "uint32 list"

record PollRes =
  Candidates :: "RpcCandidate list"
  NewInputs :: "RpcInput list"
  MaxSignal :: "uint32 list"

text \<open>
  \<^verbatim>\<open>*prog.Target\<close>: the syscall table and the two methods fuzzer.go calls. Package prog
  is outside this development, so both methods are fields of the target.
\<close>

record ('p, 'c) Target =
  Syscalls :: "'c list"
  Deserialize :: "byte list \<Rightarrow> error + 'p"
  TransitivelyEnabledCalls :: "'c fset \<Rightarrow> 'c fset"

text \<open>\<^verbatim>\<open>&WorkCandidate{p, candidate.Minimized}\<close>, the only work item main builds.\<close>

datatype 'p WorkItem = WorkCandidate 'p bool

text \<open>
  The package-level variables of fuzzer.go (lines 43-60) and the locals of main that the
  poll loop carries from one iteration to the next. \<open>workQueue\<close> lists the items enqueued
  so far, \<open>scans\<close> the arguments of the calls of \<^verbatim>\<open>kmemleakScan\<close> and \<open>sent\<close> the
  arguments of the \<^verbatim>\<open>Manager.Poll\<close> calls, each in the order they happened.
  Times are nanoseconds.
\<close>

record ('p, 'h) fuzzer =
  corpusSignal :: "uint32 fset"
  maxSignal :: "uint32 fset"
  newSignal :: "uint32 fset"
  corpus :: "'p list"
  corpusHashes :: "'h fset"
  allTriaged :: "32 word"
  noCover :: bool
  workQueue :: "'p WorkItem list"
  lastPoll :: int
  scans :: "bool list"
  sent :: "PollArgs list"

text \<open>
  The state main starts from: the four maps made empty (lines 126-129), every other
  variable at Go's zero value.
\<close>

definition init :: "('p, 'h) fuzzer" where
  "init = \<lparr>corpusSignal = {||}, maxSignal = {||}, newSignal = {||}, corpus = [],
            corpusHashes = {||}, allTriaged = 0, noCover = False, workQueue = [],
            lastPoll = 0, scans = [], sent = []\<rparr>"

section \<open>Collaborators outside fuzzer.go\<close>

text \<open>
  Modelled from the spec: \<^verbatim>\<open>cover.SignalDiff\<close> of package pkg/cover, which is not part
  of the sources at hand. The spec's \<^verbatim>\<open>signal_diff_vs_max(s)\<close> is read-only and yields the
  novel tokens of \<open>s\<close>: those not yet in the base set, in the order of \<open>s\<close>.
\<close>

definition SignalDiff :: "uint32 fset \<Rightarrow> uint32 list \<Rightarrow> uint32 list" where
  "SignalDiff base signal = filter (\<lambda>s. s |\<notin>| base) signal"

text \<open>
  Modelled from the spec: \<^verbatim>\<open>cover.SignalAdd\<close> of package pkg/cover, the spec's
  \<^verbatim>\<open>extend_max\<close> and \<^verbatim>\<open>extend_corpus_signal\<close>: every token of the signal is put into
  the base set.
\<close>

definition SignalAdd :: "uint32 fset \<Rightarrow> uint32 list \<Rightarrow> uint32 fset" where
  "SignalAdd base signal = fold finsert signal base"

text \<open>
  Modelled from the spec: \<^verbatim>\<open>WorkQueue.enqueue\<close> of workqueue.go. It never blocks and a
  priority class is served first-in first-out, so a candidate goes to the back.
\<close>

definition enqueue :: "'p WorkItem list \<Rightarrow> 'p WorkItem \<Rightarrow> 'p WorkItem list" where
  "enqueue wq item = wq @ [item]"

text \<open>
  Modelled from the spec: the publication a proc makes after a successful triage
  (proc.go): it extends \<^verbatim>\<open>max\<close>, \<^verbatim>\<open>corpus_signal\<close> and \<^verbatim>\<open>new_signal\<close> by the stable
  diff.
\<close>

definition publish :: "('p, 'h) fuzzer \<Rightarrow> uint32 list \<Rightarrow> ('p, 'h) fuzzer" where
  "publish s diff = s\<lparr>corpusSignal := SignalAdd (corpusSignal s) diff,
                      maxSignal := SignalAdd (maxSignal s) diff,
                      newSignal := SignalAdd (newSignal s) diff\<rparr>"

section \<open>addInput (lines 386-408)\<close>

definition addInput ::
  "('p, 'c) Target \<Rightarrow> (byte list \<Rightarrow> 'h) \<Rightarrow> ('p, 'h) fuzzer \<Rightarrow> RpcInput \<Rightarrow> panic + ('p, 'h) fuzzer" where
  "addInput target Hash s inp =
     (if noCover s then Inl (Panic ''should not be called when coverage is disabled'')
      else case Deserialize target (RpcInput.Prog inp) of
        Inl err \<Rightarrow> Inl (Panic err)
      | Inr p \<Rightarrow>
          let sig = Hash (RpcInput.Prog inp);
              s1 = (if sig |\<notin>| corpusHashes s
                    then s\<lparr>corpus := corpus s @ [p], corpusHashes := finsert sig (corpusHashes s)\<rparr>
                    else s);
              diff = SignalDiff (maxSignal s1) (Signal inp)
          in Inr (if length diff \<noteq> 0
                  then s1\<lparr>corpusSignal := SignalAdd (corpusSignal s1) diff,
                          maxSignal := SignalAdd (maxSignal s1) diff\<rparr>
                  else s1))"

section \<open>The poll loop of main (lines 255-346)\<close>

text \<open>
  Lines 282-288: the tokens of \<^verbatim>\<open>newSignal\<close> are copied into \<^verbatim>\<open>a.MaxSignal\<close> and the
  map is replaced by an empty one. Go leaves the order of a map iteration open; the
  model lists the tokens in increasing order.
\<close>

definition drainNewSignal :: "('p, 'h) fuzzer \<Rightarrow> uint32 list \<times> ('p, 'h) fuzzer" where
  "drainNewSignal s = (sorted_list_of_fset (newSignal s), s\<lparr>newSignal := {||}\<rparr>)"

text \<open>Lines 313-319 (and, without the length test, lines 142-144 at start-up).\<close>

definition absorbMaxSignal :: "('p, 'h) fuzzer \<Rightarrow> uint32 list \<Rightarrow> ('p, 'h) fuzzer" where
  "absorbMaxSignal s ms =
     (if length ms \<noteq> 0 then s\<lparr>maxSignal := fold finsert ms (maxSignal s)\<rparr> else s)"

text \<open>Lines 320-322 (and lines 139-141): a panic of addInput ends the loop.\<close>

fun addInputs ::
  "('p, 'c) Target \<Rightarrow> (byte list \<Rightarrow> 'h) \<Rightarrow> ('p, 'h) fuzzer \<Rightarrow> RpcInput list \<Rightarrow> panic + ('p, 'h) fuzzer" where
  "addInputs target Hash s [] = Inr s"
| "addInputs target Hash s (inp # inps) =
     (case addInput target Hash s inp of
        Inl e \<Rightarrow> Inl e
      | Inr s' \<Rightarrow> addInputs target Hash s' inps)"

text \<open>Lines 323-335 and, with the same body, lines 232-244 at start-up.\<close>

fun addCandidates ::
  "('p, 'c) Target \<Rightarrow> ('p, 'h) fuzzer \<Rightarrow> RpcCandidate list \<Rightarrow> panic + ('p, 'h) fuzzer" where
  "addCandidates target s [] = Inr s"
| "addCandidates target s (candidate # cs) =
     (case Deserialize target (RpcCandidate.Prog candidate) of
        Inl err \<Rightarrow> Inl (Panic err)
      | Inr p \<Rightarrow>
          addCandidates target
            (if noCover s then s\<lparr>corpus := corpus s @ [p]\<rparr>
             else s\<lparr>workQueue := enqueue (workQueue s) (WorkCandidate p (Minimized candidate))\<rparr>)
            cs)"

text \<open>Lines 336-341; \<^verbatim>\<open>kmemleakScan(false)\<close> is recorded in \<open>scans\<close>.\<close>

definition markTriaged :: "bool \<Rightarrow> PollRes \<Rightarrow> ('p, 'h) fuzzer \<Rightarrow> ('p, 'h) fuzzer" where
  "markTriaged flagLeak r s =
     (if length (Candidates r) = 0 \<and> allTriaged s = 0
      then (let s1 = (if flagLeak then s\<lparr>scans := scans s @ [False]\<rparr> else s)
            in s1\<lparr>allTriaged := 1\<rparr>)
      else s)"

text \<open>Lines 342-344; \<open>now\<close> is what \<^verbatim>\<open>time.Now()\<close> returns there.\<close>

definition noteLastPoll :: "int \<Rightarrow> PollRes \<Rightarrow> ('p, 'h) fuzzer \<Rightarrow> ('p, 'h) fuzzer" where
  "noteLastPoll now r s =
     (if length (NewInputs r) = 0 \<and> length (Candidates r) = 0 then s\<lparr>lastPoll := now\<rparr> else s)"

text \<open>
  Lines 277-344, one exchange with the manager. \<open>manager\<close> is the answer of
  \<^verbatim>\<open>manager.Call("Manager.Poll", a, r)\<close>: an error or the reply.
\<close>

definition pollManager ::
  "('p, 'c) Target \<Rightarrow> (byte list \<Rightarrow> 'h) \<Rightarrow> bool \<Rightarrow> (PollArgs \<Rightarrow> error + PollRes) \<Rightarrow> bool \<Rightarrow> int \<Rightarrow>
   ('p, 'h) fuzzer \<Rightarrow> panic + ('p, 'h) fuzzer" where
  "pollManager target Hash flagLeak manager needCandidates now s =
     (let (payload, s1) = drainNewSignal s;
          a = \<lparr>NeedCandidates = needCandidates, MaxSignal = payload\<rparr>;
          s2 = s1\<lparr>sent := sent s1 @ [a]\<rparr>
      in case manager a of
           Inl err \<Rightarrow> Inl (Panic err)
         | Inr r \<Rightarrow>
             (case addInputs target Hash (absorbMaxSignal s2 (PollRes.MaxSignal r)) (NewInputs r) of
                Inl e \<Rightarrow> Inl e
              | Inr s3 \<Rightarrow>
                  (case addCandidates target s3 (Candidates r) of
                     Inl e \<Rightarrow> Inl e
                   | Inr s4 \<Rightarrow> Inr (noteLastPoll now r (markTriaged flagLeak r s4)))))"

text \<open>
  \<^verbatim>\<open>time.Duration\<close> counts nanoseconds in 64 bits, and \<^verbatim>\<open>time.Since\<close> saturates at its
  bounds.
\<close>

definition Second :: int where
  "Second = 1000000000"

definition Since :: "int \<Rightarrow> int \<Rightarrow> int" where
  "Since now t =
     (let d = now - t
      in if d > 2 ^ 63 - 1 then 2 ^ 63 - 1 else if d < - (2 ^ 63) then - (2 ^ 63) else d)"

text \<open>The two cases of the \<^verbatim>\<open>select\<close> of lines 261-265.\<close>

datatype wake = Ticker | NeedPoll

text \<open>
  Lines 259-346, one iteration. \<open>now\<close> is the clock at line 271, \<open>wantCandidates\<close> the
  answer of \<^verbatim>\<open>fuzzer.workQueue.wantCandidates()\<close> at line 272 (the procs empty the queue
  concurrently, so it is an input of the iteration) and \<open>now'\<close> the clock at line 343.
  The keep-alive log of lines 266-270 changes nothing modelled here.
\<close>

definition loopBody ::
  "('p, 'c) Target \<Rightarrow> (byte list \<Rightarrow> 'h) \<Rightarrow> bool \<Rightarrow> (PollArgs \<Rightarrow> error + PollRes) \<Rightarrow>
   wake \<Rightarrow> int \<Rightarrow> bool \<Rightarrow> int \<Rightarrow> ('p, 'h) fuzzer \<Rightarrow> panic + ('p, 'h) fuzzer" where
  "loopBody target Hash flagLeak manager w now wantCandidates now' s =
     (let poll = (w = NeedPoll)
      in if poll \<or> Since now (lastPoll s) > 10 * Second
         then (let needCandidates = wantCandidates
               in if poll \<and> \<not> needCandidates then Inr s
                  else pollManager target Hash flagLeak manager needCandidates now' s)
         else Inr s)"

text \<open>
  Lines 213-221: the closure handed to the gate, and \<^verbatim>\<open>nil\<close> in its place when
  \<^verbatim>\<open>-leak\<close> is off. \<^verbatim>\<open>kmemleakScan(true)\<close> is recorded in \<open>scans\<close>.
\<close>

definition leakCallback :: "('p, 'h) fuzzer \<Rightarrow> ('p, 'h) fuzzer" where
  "leakCallback s = (if allTriaged s \<noteq> 0 then s\<lparr>scans := scans s @ [True]\<rparr> else s)"

definition gateCallback :: "bool \<Rightarrow> (('p, 'h) fuzzer \<Rightarrow> ('p, 'h) fuzzer) option" where
  "gateCallback flagLeak = (if \<not> flagLeak then None else Some leakCallback)"

section \<open>buildCallList (lines 349-384)\<close>

text \<open>
  \<^verbatim>\<open>strings.Split(s, ",")\<close> for a one-byte separator: the pieces between the separators,
  one more than there are separators.
\<close>

fun Split :: "string \<Rightarrow> char \<Rightarrow> string list" where
  "Split [] sep = [[]]"
| "Split (c # cs) sep =
     (if c = sep then [] # Split cs sep
      else (case Split cs sep of
              [] \<Rightarrow> [[c]]
            | w # ws \<Rightarrow> (c # w) # ws))"

text \<open>
  \<^verbatim>\<open>strconv.ParseUint(s, 10, 64)\<close>: the digit loop of the Go library, which stops with a
  syntax error at a byte that is no decimal digit and with a range error once the value
  leaves 64 bits, and the test for the empty string before it.
\<close>

fun parseDigits :: "nat \<Rightarrow> string \<Rightarrow> error + nat" where
  "parseDigits n [] = Inr n"
| "parseDigits n (c # cs) =
     (let b = (of_char c :: nat)
      in if 48 \<le> b \<and> b \<le> 57
         then (if n \<ge> (2 ^ 64 - 1) div 10 + 1 then Inl ''value out of range''
               else (let n1 = n * 10 + (b - 48)
                     in if n1 > 2 ^ 64 - 1 then Inl ''value out of range''
                        else parseDigits n1 cs))
         else Inl ''invalid syntax'')"

definition ParseUint :: "string \<Rightarrow> error + nat" where
  "ParseUint s = (if s = [] then Inl ''invalid syntax'' else parseDigits 0 s)"

text \<open>Lines 352-358: the loop over the ids of a non-empty \<^verbatim>\<open>enabledCalls\<close>.\<close>

fun enableCalls :: "('p, 'c) Target \<Rightarrow> string list \<Rightarrow> 'c fset \<Rightarrow> panic + 'c fset" where
  "enableCalls target [] calls = Inr calls"
| "enableCalls target (i # ids) calls =
     (case ParseUint i of
        Inl err \<Rightarrow> Inl (Panic (''invalid syscall in -calls flag: '' @ i))
      | Inr n \<Rightarrow>
          if n \<ge> length (Syscalls target)
          then Inl (Panic (''invalid syscall in -calls flag: '' @ i))
          else enableCalls target ids (finsert (Syscalls target ! n) calls))"

text \<open>
  \<open>detect\<close> is what \<^verbatim>\<open>host.DetectSupportedSyscalls(target)\<close> returns, a Go pair of the
  supported calls and an error (\<open>None\<close> for \<^verbatim>\<open>nil\<close>). The map \<^verbatim>\<open>calls\<close> only ever holds
  \<^verbatim>\<open>true\<close>, so it is the set of its keys, and deleting from it while ranging over it is
  keeping the keys that pass the test.
\<close>

definition buildCallList ::
  "('p, 'c) Target \<Rightarrow> ('c fset \<times> error option) \<Rightarrow> string \<Rightarrow> panic + 'c fset" where
  "buildCallList target detect enabledCalls =
     (case (if enabledCalls \<noteq> [] then enableCalls target (Split enabledCalls CHR '','') {||}
            else Inr (fold finsert (Syscalls target) {||})) of
        Inl e \<Rightarrow> Inl e
      | Inr calls \<Rightarrow>
          (let calls1 = (case detect of
                           (supp, Some err) \<Rightarrow> calls
                         | (supp, None) \<Rightarrow> ffilter (\<lambda>c. c |\<in>| supp) calls);
               trans = TransitivelyEnabledCalls target calls1
           in Inr (ffilter (\<lambda>c. c |\<in>| trans) calls1)))"

section \<open>Sequences of operations\<close>

text \<open>
  The two ways fuzzer.go itself changes the signal sets: a call of addInput, and the
  absorption of the max signal a poll returned.
\<close>

datatype signalOp = OpAddInput RpcInput | OpAbsorb "uint32 list"

fun applyOp ::
  "('p, 'c) Target \<Rightarrow> (byte list \<Rightarrow> 'h) \<Rightarrow> ('p, 'h) fuzzer \<Rightarrow> signalOp \<Rightarrow> panic + ('p, 'h) fuzzer" where
  "applyOp target Hash s (OpAddInput inp) = addInput target Hash s inp"
| "applyOp target Hash s (OpAbsorb ms) = Inr (absorbMaxSignal s ms)"

fun applyOps ::
  "('p, 'c) Target \<Rightarrow> (byte list \<Rightarrow> 'h) \<Rightarrow> ('p, 'h) fuzzer \<Rightarrow> signalOp list \<Rightarrow> panic + ('p, 'h) fuzzer" where
  "applyOps target Hash s [] = Inr s"
| "applyOps target Hash s (x # xs) =
     (case applyOp target Hash s x of
        Inl e \<Rightarrow> Inl e
      | Inr s' \<Rightarrow> applyOps target Hash s' xs)"

text \<open>
  What happens to the shared state once the procs run: an iteration of the poll loop,
  the gate calling its leak callback (if it has one), a proc publishing signal.
\<close>

datatype event =
  Wake wake int bool "PollArgs \<Rightarrow> error + PollRes" int
| GateScan
| Publish "uint32 list"

fun step ::
  "('p, 'c) Target \<Rightarrow> (byte list \<Rightarrow> 'h) \<Rightarrow> bool \<Rightarrow> ('p, 'h) fuzzer \<Rightarrow> event \<Rightarrow> panic + ('p, 'h) fuzzer" where
  "step target Hash flagLeak s (Wake w now wantCandidates manager now') =
     loopBody target Hash flagLeak manager w now wantCandidates now' s"
| "step target Hash flagLeak s GateScan =
     Inr (case gateCallback flagLeak of None \<Rightarrow> s | Some cb \<Rightarrow> cb s)"
| "step target Hash flagLeak s (Publish diff) = Inr (publish s diff)"

fun run ::
  "('p, 'c) Target \<Rightarrow> (byte list \<Rightarrow> 'h) \<Rightarrow> bool \<Rightarrow> ('p, 'h) fuzzer \<Rightarrow> event list \<Rightarrow> panic + ('p, 'h) fuzzer" where
  "run target Hash flagLeak s [] = Inr s"
| "run target Hash flagLeak s (e # es) =
     (case step target Hash flagLeak s e of
        Inl x \<Rightarrow> Inl x
      | Inr s' \<Rightarrow> run target Hash flagLeak s' es)"

text \<open>
  The states the triage flag and the scan log can be in: the flag still 0 and no scan
  made, or the flag 1 and, in leak mode, the baseline scan followed by reporting scans
  only (no scan at all without leak mode).
\<close>

definition latched :: "bool \<Rightarrow> ('p, 'h) fuzzer \<Rightarrow> bool" where
  "latched flagLeak s =
     ((allTriaged s = 0 \<and> scans s = []) \<or>
      (allTriaged s = 1 \<and>
       (if flagLeak then scans s = False # replicate (length (scans s) - 1) True else scans s = [])))"

section \<open>A small target for closed instances\<close>

text \<open>
  Three system calls, of which call 1 needs call 0 to be enabled; a program is its own
  non-empty byte string and its own hash.
\<close>

definition exTarget :: "(byte list, nat) Target" where
  "exTarget = \<lparr>Syscalls = [0, 1, 2],
               Deserialize = (\<lambda>b. if b = [] then Inl ''empty program'' else Inr b),
               TransitivelyEnabledCalls = (\<lambda>calls. if 0 |\<in>| calls then calls else calls |-| {|1|})\<rparr>"

definition exHash :: "byte list \<Rightarrow> byte list" where
  "exHash b = b"

text \<open>A reply of the manager to a poll: one candidate, one input, one token.\<close>

definition exReply :: PollRes where
  "exReply = \<lparr>Candidates = [\<lparr>RpcCandidate.Prog = [2], Minimized = True\<rparr>],
              NewInputs = [\<lparr>RpcInput.Prog = [1], Signal = [17]\<rparr>],
              MaxSignal = [42]\<rparr>"

text \<open>A reply of the manager with nothing in it.\<close>

definition exNothing :: PollRes where
  "exNothing = \<lparr>Candidates = [], NewInputs = [], MaxSignal = []\<rparr>"

text \<open>A manager that answers every poll with the empty reply.\<close>

definition exManager :: "PollArgs \<Rightarrow> error + PollRes" where
  "exManager a = Inr exNothing"

text \<open>A state whose last poll without news was at second 100.\<close>

definition exIdle :: "(byte list, byte list) fuzzer" where
  "exIdle = init\<lparr>lastPoll := 100 * Second\<rparr>"

text \<open>An input, and the state one call of addInput with it reaches from the initial state.\<close>

definition exInput :: RpcInput where
  "exInput = \<lparr>RpcInput.Prog = [1], Signal = [7]\<rparr>"

definition exSeen :: "(byte list, byte list) fuzzer" where
  "exSeen = init\<lparr>corpusSignal := {|7|}, maxSignal := {|7|}, corpus := [[1]], corpusHashes := {|[1]|}\<rparr>"

section \<open>Facts about the signal helpers and addInput\<close>

lemma fold_finsert_union: "fold finsert xs A = A |\<union>| fset_of_list xs"
  by (induction xs arbitrary: A) auto

lemma SignalAdd_union: "SignalAdd base signal = base |\<union>| fset_of_list signal"
  by (simp add: SignalAdd_def fold_finsert_union)

lemma SignalDiff_fset: "fset_of_list (SignalDiff base signal) = fset_of_list signal |-| base"
  by (auto simp: SignalDiff_def fset_of_list_elem)

lemma SignalDiff_empty: "(SignalDiff base signal = []) = (fset_of_list signal |\<subseteq>| base)"
  by (auto simp: SignalDiff_def filter_empty_conv fset_of_list_elem)

lemma addInput_isl:
  "isl (addInput target Hash s inp) = (noCover s \<or> isl (Deserialize target (RpcInput.Prog inp)))"
  by (simp add: addInput_def Let_def split: sum.splits)

lemma addInput_signals:
  assumes "addInput target Hash s inp = Inr s'"
  shows "maxSignal s' = maxSignal s |\<union>| fset_of_list (Signal inp)"
    and "corpusSignal s' = corpusSignal s |\<union>| (fset_of_list (Signal inp) |-| maxSignal s)"
  using assms
  by (auto simp: addInput_def Let_def SignalAdd_union SignalDiff_fset SignalDiff_empty
      split: if_splits sum.splits)


lemma addInput_corpus:
  assumes "addInput target Hash s inp = Inr s'"
  shows "\<exists>p. Deserialize target (RpcInput.Prog inp) = Inr p \<and>
           corpus s' = (if Hash (RpcInput.Prog inp) |\<in>| corpusHashes s then corpus s else corpus s @ [p])"
    and "corpusHashes s' = finsert (Hash (RpcInput.Prog inp)) (corpusHashes s)"
    and "noCover s' = noCover s" and "\<not> noCover s"
  using assms
  by (auto simp: addInput_def Let_def split: if_splits sum.splits)

lemma addInput_returns:
  assumes "\<not> noCover s" and "Deserialize target (RpcInput.Prog inp) = Inr q"
  shows "\<exists>s'. addInput target Hash s inp = Inr s'"
  using assms addInput_isl [of target Hash s inp] by (cases "addInput target Hash s inp") auto

section \<open>Deduplication of the corpus\<close>

text \<open>
  Claim C3, as the code has it. When coverage is enabled and the bytes deserialize, two
  calls of addInput with the same program bytes both return, in every state. The second
  call leaves the corpus and the hash set as the first call left them. Over the two calls
  the corpus grows by exactly one entry, the deserialized program, if the hash of the
  bytes was not in \<^verbatim>\<open>corpusHashes\<close> before the first call, and does not grow at all if
  it was. The signals of the two inputs may differ.
\<close>

theorem addInput_twice_dedup:
  assumes "\<not> noCover s"
    and "Deserialize target (RpcInput.Prog inp1) = Inr q"
    and "RpcInput.Prog inp2 = RpcInput.Prog inp1"
  shows "\<exists>s1 s2. addInput target Hash s inp1 = Inr s1 \<and> addInput target Hash s1 inp2 = Inr s2 \<and>
           length (corpus s2) =
             length (corpus s) + (if Hash (RpcInput.Prog inp1) |\<in>| corpusHashes s then 0 else 1) \<and>
           corpus s1 = (if Hash (RpcInput.Prog inp1) |\<in>| corpusHashes s then corpus s else corpus s @ [q]) \<and>
           corpus s2 = corpus s1 \<and> corpusHashes s2 = corpusHashes s1"
proof -
  obtain s1 where s1: "addInput target Hash s inp1 = Inr s1"
    using addInput_returns [OF assms(1,2)] by blast
  have c1: "corpus s1 = (if Hash (RpcInput.Prog inp1) |\<in>| corpusHashes s then corpus s else corpus s @ [q])"
    using addInput_corpus(1) [OF s1] assms(2) by simp
  have h1: "corpusHashes s1 = finsert (Hash (RpcInput.Prog inp1)) (corpusHashes s)"
    by (rule addInput_corpus(2) [OF s1])
  have n1: "\<not> noCover s1"
    using addInput_corpus(3) [OF s1] assms(1) by simp
  have d2: "Deserialize target (RpcInput.Prog inp2) = Inr q"
    using assms(2,3) by simp
  obtain s2 where s2: "addInput target Hash s1 inp2 = Inr s2"
    using addInput_returns [OF n1 d2] by blast
  have c2: "corpus s2 = corpus s1"
    using addInput_corpus(1) [OF s2] h1 assms(3) by simp
  have h2: "corpusHashes s2 = corpusHashes s1"
    using addInput_corpus(2) [OF s2] h1 assms(3) by simp
  have l: "length (corpus s2) =
             length (corpus s) + (if Hash (RpcInput.Prog inp1) |\<in>| corpusHashes s then 0 else 1)"
    unfolding c2 c1 by simp
  show ?thesis
    using s1 s2 c1 c2 h2 l by blast
qed

theorem addInput_twice_dedup_witness:
  "\<not> noCover (init :: (byte list, byte list) fuzzer) \<and>
   Deserialize exTarget (RpcInput.Prog exInput) = Inr [1] \<and>
   (\<exists>s1 s2. addInput exTarget exHash init exInput = Inr s1 \<and>
      addInput exTarget exHash s1 \<lparr>RpcInput.Prog = [1], Signal = [9]\<rparr> = Inr s2 \<and>
      length (corpus s2) = 1 \<and> corpus s1 = [[1]] \<and>
      corpus s2 = corpus s1 \<and> corpusHashes s2 = corpusHashes s1)"
proof -
  let ?init = "init :: (byte list, byte list) fuzzer"
  let ?i2 = "\<lparr>RpcInput.Prog = [1], Signal = [9]\<rparr>"
  have a: "\<not> noCover ?init"
    by (simp add: init_def)
  have b: "Deserialize exTarget (RpcInput.Prog exInput) = Inr [1]"
    by (simp add: exTarget_def exInput_def)
  have c: "RpcInput.Prog ?i2 = RpcInput.Prog exInput"
    by (simp add: exInput_def)
  have d: "length (corpus ?init) + (if exHash (RpcInput.Prog exInput) |\<in>| corpusHashes ?init then 0 else 1) = 1"
    "(if exHash (RpcInput.Prog exInput) |\<in>| corpusHashes ?init then corpus ?init else corpus ?init @ [[1]]) = [[1]]"
    by (simp_all add: init_def)
  from addInput_twice_dedup [where Hash = exHash and target = exTarget and s = ?init
      and ?inp1.0 = exInput and ?inp2.0 = ?i2, OF a b c]
  have "\<exists>s1 s2. addInput exTarget exHash init exInput = Inr s1 \<and>
      addInput exTarget exHash s1 ?i2 = Inr s2 \<and>
      length (corpus s2) = 1 \<and> corpus s1 = [[1]] \<and>
      corpus s2 = corpus s1 \<and> corpusHashes s2 = corpusHashes s1"
    unfolding d .
  with a b show ?thesis by blast
qed

text \<open>
  The claim as written fails for bytes the corpus already holds: one call of addInput
  from the initial state reaches a state from which two more calls with the same input
  return that very state, so the corpus does not grow by one.
\<close>

theorem addInput_twice_dedup_counterexample:
  "addInput exTarget exHash init exInput = Inr exSeen \<and>
   addInput exTarget exHash exSeen exInput = Inr exSeen \<and>
   length (corpus exSeen) \<noteq> length (corpus exSeen) + 1"
  by (simp add: addInput_def exTarget_def exHash_def exInput_def exSeen_def init_def Let_def
      SignalDiff_def SignalAdd_def)

text \<open>
  Claim C9. A call of addInput whose program hash is already in \<^verbatim>\<open>corpusHashes\<close>
  returns with the corpus and the hash set unchanged, and still adds the tokens of the
  input's signal that are not in \<^verbatim>\<open>maxSignal\<close> to both \<^verbatim>\<open>maxSignal\<close> and
  \<^verbatim>\<open>corpusSignal\<close>.
\<close>

theorem addInput_duplicate_signals:
  assumes "\<not> noCover s"
    and "Deserialize target (RpcInput.Prog inp) = Inr q"
    and "Hash (RpcInput.Prog inp) |\<in>| corpusHashes s"
  shows "\<exists>s'. addInput target Hash s inp = Inr s' \<and>
           corpus s' = corpus s \<and> corpusHashes s' = corpusHashes s \<and>
           maxSignal s' = maxSignal s |\<union>| (fset_of_list (Signal inp) |-| maxSignal s) \<and>
           corpusSignal s' = corpusSignal s |\<union>| (fset_of_list (Signal inp) |-| maxSignal s)"
proof -
  obtain s' where s': "addInput target Hash s inp = Inr s'"
    using assms(1,2) addInput_isl [of target Hash s inp] by (cases "addInput target Hash s inp") auto
  have "corpus s' = corpus s" and "corpusHashes s' = corpusHashes s"
    using s' assms by (auto simp: addInput_def Let_def split: if_splits)
  moreover have "maxSignal s' = maxSignal s |\<union>| (fset_of_list (Signal inp) |-| maxSignal s)"
    using addInput_signals(1) [OF s'] by auto
  ultimately show ?thesis using s' addInput_signals(2) [OF s'] by simp
qed

theorem addInput_duplicate_signals_witness:
  "\<not> noCover ((init :: (byte list, byte list) fuzzer)\<lparr>corpus := [[1]], corpusHashes := {|[1]|},
        corpusSignal := {|7|}, maxSignal := {|7, 8|}\<rparr>) \<and>
   (\<exists>s'. addInput exTarget exHash
          ((init :: (byte list, byte list) fuzzer)\<lparr>corpus := [[1]], corpusHashes := {|[1]|},
              corpusSignal := {|7|}, maxSignal := {|7, 8|}\<rparr>)
          \<lparr>RpcInput.Prog = [1], Signal = [8, 9]\<rparr> = Inr s' \<and>
      corpus s' = [[1]] \<and> corpusHashes s' = {|[1]|} \<and>
      maxSignal s' = {|7, 8, 9|} \<and> corpusSignal s' = {|7, 9|})"
proof -
  let ?s = "(init :: (byte list, byte list) fuzzer)\<lparr>corpus := [[1]], corpusHashes := {|[1]|},
        corpusSignal := {|7|}, maxSignal := {|7, 8|}\<rparr>"
  let ?i = "\<lparr>RpcInput.Prog = [1], Signal = [8, 9]\<rparr>"
  have a: "\<not> noCover ?s"
    by (simp add: init_def)
  have b: "Deserialize exTarget (RpcInput.Prog ?i) = Inr [1]"
    by (simp add: exTarget_def)
  have c: "exHash (RpcInput.Prog ?i) |\<in>| corpusHashes ?s"
    by (simp add: exHash_def)
  have d: "maxSignal ?s |\<union>| (fset_of_list (Signal ?i) |-| maxSignal ?s) = {|7, 8, 9|}"
    by auto
  have e: "corpusSignal ?s |\<union>| (fset_of_list (Signal ?i) |-| maxSignal ?s) = {|7, 9|}"
    by auto
  from addInput_duplicate_signals [where Hash = exHash and target = exTarget and s = ?s and inp = ?i, OF a b c]
  obtain s' where "addInput exTarget exHash ?s ?i = Inr s'" "corpus s' = corpus ?s"
    "corpusHashes s' = corpusHashes ?s"
    "maxSignal s' = maxSignal ?s |\<union>| (fset_of_list (Signal ?i) |-| maxSignal ?s)"
    "corpusSignal s' = corpusSignal ?s |\<union>| (fset_of_list (Signal ?i) |-| maxSignal ?s)"
    by blast
  then have "addInput exTarget exHash ?s ?i = Inr s' \<and>
      corpus s' = [[1]] \<and> corpusHashes s' = {|[1]|} \<and>
      maxSignal s' = {|7, 8, 9|} \<and> corpusSignal s' = {|7, 9|}"
    unfolding d e by simp
  then show ?thesis using a by blast
qed

section \<open>Fatal errors\<close>

text \<open>
  Claim C8. addInput panics exactly when coverage is disabled or the program bytes of
  the input fail to deserialize; the loop over the candidates panics exactly when one of
  them fails to deserialize, so such a candidate is never skipped.
\<close>

theorem addInput_fatal_cases:
  "isl (addInput target Hash s inp) = (noCover s \<or> isl (Deserialize target (RpcInput.Prog inp)))
   \<and> isl (addCandidates target s cs) = list_ex (\<lambda>c. isl (Deserialize target (RpcCandidate.Prog c))) cs"
proof -
  have "isl (addCandidates target s cs) = list_ex (\<lambda>c. isl (Deserialize target (RpcCandidate.Prog c))) cs"
    by (induction cs arbitrary: s) (auto split: sum.splits)
  then show ?thesis by (simp add: addInput_isl)
qed


section \<open>Monotone signal sets\<close>

lemma absorbMaxSignal_max:
  "maxSignal (absorbMaxSignal s ms) = maxSignal s |\<union>| fset_of_list ms"
  by (cases ms) (simp_all add: absorbMaxSignal_def fold_finsert_union)

lemma absorbMaxSignal_corpusSignal:
  "corpusSignal (absorbMaxSignal s ms) = corpusSignal s"
  by (simp add: absorbMaxSignal_def)

lemma applyOp_signals:
  assumes "applyOp target Hash s x = Inr s'"
  shows "maxSignal s |\<subseteq>| maxSignal s'"
    and "corpusSignal s |\<subseteq>| maxSignal s \<Longrightarrow> corpusSignal s' |\<subseteq>| maxSignal s'"
proof -
  show "maxSignal s |\<subseteq>| maxSignal s'"
  proof (cases x)
    case (OpAddInput inp)
    with assms have "addInput target Hash s inp = Inr s'" by simp
    from addInput_signals(1) [OF this] show ?thesis by auto
  next
    case (OpAbsorb ms)
    with assms show ?thesis by (auto simp: absorbMaxSignal_max)
  qed
  show "corpusSignal s' |\<subseteq>| maxSignal s'" if inv: "corpusSignal s |\<subseteq>| maxSignal s"
  proof (cases x)
    case (OpAddInput inp)
    with assms have a: "addInput target Hash s inp = Inr s'" by simp
    show ?thesis
      using inv unfolding addInput_signals(1) [OF a] addInput_signals(2) [OF a] by auto
  next
    case (OpAbsorb ms)
    with assms inv show ?thesis
      by (auto simp: absorbMaxSignal_max absorbMaxSignal_corpusSignal)
  qed
qed

lemma applyOps_signals:
  assumes "applyOps target Hash s xs = Inr s'"
  shows "maxSignal s |\<subseteq>| maxSignal s' \<and>
         (corpusSignal s |\<subseteq>| maxSignal s \<longrightarrow> corpusSignal s' |\<subseteq>| maxSignal s')"
  using assms
proof (induction xs arbitrary: s)
  case Nil
  then show ?case by simp
next
  case (Cons x xs)
  then obtain t where t: "applyOp target Hash s x = Inr t" and r: "applyOps target Hash t xs = Inr s'"
    by (auto split: sum.splits)
  from Cons.IH [OF r] applyOp_signals [OF t] show ?case
    by (meson fsubset_trans)
qed

text \<open>
  Claim C1. Start in a state where \<^verbatim>\<open>corpusSignal\<close> is a subset of \<^verbatim>\<open>maxSignal\<close> (as the
  two empty maps of main are) and run any sequence of addInput calls and absorptions of
  max signal returned by the manager. Then at every state reached the corpus signal is
  a subset of the max signal, and between any state reached and any later one no token
  leaves the max signal.
\<close>

theorem signal_monotone:
  assumes "corpusSignal s0 |\<subseteq>| maxSignal s0"
    and "applyOps target Hash s0 ops1 = Inr s1"
    and "applyOps target Hash s1 ops2 = Inr s2"
  shows "maxSignal s1 |\<subseteq>| maxSignal s2 \<and> corpusSignal s1 |\<subseteq>| maxSignal s1 \<and>
         corpusSignal s2 |\<subseteq>| maxSignal s2"
proof -
  have i1: "corpusSignal s1 |\<subseteq>| maxSignal s1"
    using applyOps_signals [OF assms(2)] assms(1) by simp
  then show ?thesis
    using applyOps_signals [OF assms(3)] by simp
qed

theorem signal_monotone_witness:
  "corpusSignal (init :: (byte list, byte list) fuzzer) |\<subseteq>| maxSignal (init :: (byte list, byte list) fuzzer) \<and>
   (\<exists>s1 s2. applyOps exTarget exHash (init :: (byte list, byte list) fuzzer)
                [OpAddInput \<lparr>RpcInput.Prog = [1], Signal = [17, 42]\<rparr>] = Inr s1 \<and>
      applyOps exTarget exHash s1 [OpAbsorb [9], OpAddInput \<lparr>RpcInput.Prog = [1], Signal = [9, 5]\<rparr>] = Inr s2 \<and>
      maxSignal s1 |\<subseteq>| maxSignal s2 \<and> corpusSignal s1 |\<subseteq>| maxSignal s1 \<and>
      corpusSignal s2 |\<subseteq>| maxSignal s2)"
proof -
  let ?init = "init :: (byte list, byte list) fuzzer"
  let ?ops1 = "[OpAddInput \<lparr>RpcInput.Prog = [1], Signal = [17, 42]\<rparr>]"
  let ?ops2 = "[OpAbsorb [9], OpAddInput \<lparr>RpcInput.Prog = [1], Signal = [9, 5]\<rparr>]"
  have inv: "corpusSignal ?init |\<subseteq>| maxSignal ?init"
    by (simp add: init_def)
  have "\<not> isl (applyOps exTarget exHash ?init ?ops1)"
    by (simp add: addInput_def exTarget_def init_def Let_def)
  then obtain s1 where s1: "applyOps exTarget exHash ?init ?ops1 = Inr s1"
    by (cases "applyOps exTarget exHash ?init ?ops1") auto
  then have n1: "\<not> noCover s1"
    by (auto simp: init_def dest: addInput_corpus(3) split: sum.splits)
  have "\<not> isl (applyOps exTarget exHash s1 ?ops2)"
  proof -
    have "\<not> isl (addInput exTarget exHash (absorbMaxSignal s1 [9]) \<lparr>RpcInput.Prog = [1], Signal = [9, 5]\<rparr>)"
      using n1 by (simp add: addInput_isl absorbMaxSignal_def exTarget_def)
    then show ?thesis
      by (cases "addInput exTarget exHash (absorbMaxSignal s1 [9]) \<lparr>RpcInput.Prog = [1], Signal = [9, 5]\<rparr>") simp_all
  qed
  then obtain s2 where s2: "applyOps exTarget exHash s1 ?ops2 = Inr s2"
    by (cases "applyOps exTarget exHash s1 ?ops2") auto
  from signal_monotone [where Hash = exHash and target = exTarget, OF inv s1 s2] inv s1 s2
  show ?thesis by blast
qed

section \<open>Candidates and the reply to a poll\<close>

lemma not_isl_Inr: "\<not> isl x \<Longrightarrow> \<exists>y. x = Inr y"
  by (cases x) auto

lemma addCandidates_closed:
  assumes "list_all (\<lambda>c. \<not> isl (Deserialize target (RpcCandidate.Prog c))) cs"
  shows "addCandidates target s cs =
    Inr (if noCover s
         then s\<lparr>corpus := corpus s @ map (\<lambda>c. projr (Deserialize target (RpcCandidate.Prog c))) cs\<rparr>
         else s\<lparr>workQueue := workQueue s @
                  map (\<lambda>c. WorkCandidate (projr (Deserialize target (RpcCandidate.Prog c))) (Minimized c)) cs\<rparr>)"
  using assms
proof (induction cs arbitrary: s)
  case Nil
  then show ?case by simp
next
  case (Cons c cs)
  then obtain p where p: "Deserialize target (RpcCandidate.Prog c) = Inr p"
    by (cases "Deserialize target (RpcCandidate.Prog c)") auto
  from Cons.prems have rest: "list_all (\<lambda>c. \<not> isl (Deserialize target (RpcCandidate.Prog c))) cs"
    by simp
  show ?case
    by (simp add: p Cons.IH [OF rest] enqueue_def)
qed

lemma addCandidates_ok:
  assumes "addCandidates target s cs = Inr s'"
  shows "list_all (\<lambda>c. \<not> isl (Deserialize target (RpcCandidate.Prog c))) cs"
  using assms
  by (induction cs arbitrary: s) (auto split: sum.splits)

lemma addInput_frame:
  assumes "addInput target Hash s inp = Inr s'"
  shows "newSignal s' = newSignal s" and "sent s' = sent s" and "allTriaged s' = allTriaged s"
    and "scans s' = scans s" and "lastPoll s' = lastPoll s" and "workQueue s' = workQueue s"
  using assms
  by (auto simp: addInput_def Let_def split: if_splits sum.splits)

lemma addInputs_frame:
  assumes "addInputs target Hash s inps = Inr s'"
  shows "newSignal s' = newSignal s \<and> sent s' = sent s \<and> allTriaged s' = allTriaged s \<and>
         scans s' = scans s \<and> lastPoll s' = lastPoll s \<and> workQueue s' = workQueue s \<and>
         noCover s' = noCover s \<and> maxSignal s |\<subseteq>| maxSignal s'"
  using assms
proof (induction inps arbitrary: s)
  case Nil
  then show ?case by simp
next
  case (Cons inp inps)
  then obtain t where t: "addInput target Hash s inp = Inr t" and r: "addInputs target Hash t inps = Inr s'"
    by (auto split: sum.splits)
  have "maxSignal s |\<subseteq>| maxSignal t"
    using addInput_signals(1) [OF t] by auto
  with Cons.IH [OF r] addInput_frame [OF t] addInput_corpus(3) [OF t] show ?case
    by auto
qed

lemma addCandidates_frame:
  assumes "addCandidates target s cs = Inr s'"
  shows "newSignal s' = newSignal s \<and> sent s' = sent s \<and> allTriaged s' = allTriaged s \<and>
         scans s' = scans s \<and> lastPoll s' = lastPoll s \<and> maxSignal s' = maxSignal s \<and>
         corpusHashes s' = corpusHashes s \<and> noCover s' = noCover s"
  using assms addCandidates_closed [OF addCandidates_ok [OF assms], of s]
  by (auto split: if_splits)

lemma pollManager_Inr:
  assumes "pollManager target Hash flagLeak manager nc now s = Inr s'"
  shows "\<exists>r s3 s4.
           manager \<lparr>NeedCandidates = nc, MaxSignal = sorted_list_of_fset (newSignal s)\<rparr> = Inr r \<and>
           addInputs target Hash
             (absorbMaxSignal
                (s\<lparr>newSignal := {||},
                   sent := sent s @ [\<lparr>NeedCandidates = nc, MaxSignal = sorted_list_of_fset (newSignal s)\<rparr>]\<rparr>)
                (PollRes.MaxSignal r))
             (NewInputs r) = Inr s3 \<and>
           addCandidates target s3 (Candidates r) = Inr s4 \<and>
           s' = noteLastPoll now r (markTriaged flagLeak r s4)"
  using assms
  by (auto simp: pollManager_def drainNewSignal_def Let_def split: sum.splits)

text \<open>
  Claim C10. With coverage disabled, the loop over the candidates (at start-up and after
  a poll) appends every deserialized candidate to the corpus and never reads or changes
  \<^verbatim>\<open>corpusHashes\<close>: the corpus grows by one entry per candidate, so the same bytes
  received twice give two entries.
\<close>

theorem noCover_candidates_not_deduplicated:
  assumes "noCover s"
    and "list_all (\<lambda>c. \<not> isl (Deserialize target (RpcCandidate.Prog c))) cs"
  shows "\<exists>s'. addCandidates target s cs = Inr s' \<and>
           corpus s' = corpus s @ map (\<lambda>c. projr (Deserialize target (RpcCandidate.Prog c))) cs \<and>
           length (corpus s') = length (corpus s) + length cs \<and>
           corpusHashes s' = corpusHashes s"
  using assms by (simp add: addCandidates_closed)

theorem noCover_candidates_not_deduplicated_witness:
  "noCover ((init :: (byte list, byte list) fuzzer)\<lparr>noCover := True\<rparr>) \<and>
   list_all (\<lambda>c. \<not> isl (Deserialize exTarget (RpcCandidate.Prog c)))
     [\<lparr>RpcCandidate.Prog = [1], Minimized = True\<rparr>, \<lparr>RpcCandidate.Prog = [1], Minimized = True\<rparr>] \<and>
   (\<exists>s'. addCandidates exTarget ((init :: (byte list, byte list) fuzzer)\<lparr>noCover := True\<rparr>)
            [\<lparr>RpcCandidate.Prog = [1], Minimized = True\<rparr>, \<lparr>RpcCandidate.Prog = [1], Minimized = True\<rparr>] = Inr s' \<and>
      corpus s' = [[1], [1]] \<and> length (corpus s') = 2 \<and> corpusHashes s' = {||})"
proof -
  let ?s = "(init :: (byte list, byte list) fuzzer)\<lparr>noCover := True\<rparr>"
  let ?cs = "[\<lparr>RpcCandidate.Prog = [1], Minimized = True\<rparr>, \<lparr>RpcCandidate.Prog = [1], Minimized = True\<rparr>]"
  have a: "noCover ?s" by simp
  have b: "list_all (\<lambda>c. \<not> isl (Deserialize exTarget (RpcCandidate.Prog c))) ?cs"
    by (simp add: exTarget_def)
  have c: "corpus ?s @ map (\<lambda>c. projr (Deserialize exTarget (RpcCandidate.Prog c))) ?cs = [[1], [1]]"
    by (simp add: exTarget_def init_def)
  have d: "corpusHashes ?s = {||}" "length (corpus ?s) + length ?cs = 2"
    by (simp_all add: init_def)
  from noCover_candidates_not_deduplicated [where target = exTarget, OF a b]
  show ?thesis unfolding c d using a b by simp
qed


lemma addInputs_ok:
  assumes "addInputs target Hash s inps = Inr s'"
  shows "list_all (\<lambda>i. \<not> isl (Deserialize target (RpcInput.Prog i))) inps \<and> (inps \<noteq> [] \<longrightarrow> \<not> noCover s)"
  using assms
proof (induction inps arbitrary: s)
  case Nil
  then show ?case by simp
next
  case (Cons inp inps)
  then obtain t where t: "addInput target Hash s inp = Inr t" and r: "addInputs target Hash t inps = Inr s'"
    by (auto split: sum.splits)
  have "\<not> isl (addInput target Hash s inp)" using t by simp
  then have "\<not> noCover s \<and> \<not> isl (Deserialize target (RpcInput.Prog inp))"
    by (simp add: addInput_isl)
  with Cons.IH [OF r] show ?case by simp
qed

lemma addInputs_signals:
  assumes "addInputs target Hash s inps = Inr s'"
  shows "maxSignal s' = maxSignal s |\<union>| fset_of_list (concat (map Signal inps)) \<and>
         corpusSignal s' = corpusSignal s |\<union>| (fset_of_list (concat (map Signal inps)) |-| maxSignal s)"
  using assms
proof (induction inps arbitrary: s)
  case Nil
  then show ?case by simp
next
  case (Cons inp inps)
  then obtain t where t: "addInput target Hash s inp = Inr t" and r: "addInputs target Hash t inps = Inr s'"
    by (auto split: sum.splits)
  show ?case
    using Cons.IH [OF r] unfolding addInput_signals(1) [OF t] addInput_signals(2) [OF t]
    by auto
qed

lemma fcard_new_hash:
  "fcard (finsert h A |-| H) = (if h |\<in>| H then fcard (A |-| H) else Suc (fcard (A |-| finsert h H)))"
proof (cases "h |\<in>| H")
  case True
  then have "finsert h A |-| H = A |-| H" by auto
  with True show ?thesis by simp
next
  case False
  then have "finsert h A |-| H = finsert h (A |-| finsert h H)" by auto
  moreover have "h |\<notin>| A |-| finsert h H" by auto
  ultimately show ?thesis using False by (simp add: fcard_finsert_disjoint)
qed

lemma addInputs_corpus:
  assumes "addInputs target Hash s inps = Inr s'"
  shows "corpusHashes s' = corpusHashes s |\<union>| fset_of_list (map (\<lambda>i. Hash (RpcInput.Prog i)) inps) \<and>
         (\<exists>ps. corpus s' = corpus s @ ps \<and>
               length ps = fcard (fset_of_list (map (\<lambda>i. Hash (RpcInput.Prog i)) inps) |-| corpusHashes s) \<and>
               set ps \<subseteq> (\<lambda>i. projr (Deserialize target (RpcInput.Prog i))) ` set inps)"
  using assms
proof (induction inps arbitrary: s)
  case Nil
  then show ?case by simp
next
  case (Cons inp inps)
  let ?h = "Hash (RpcInput.Prog inp)"
  let ?hs = "fset_of_list (map (\<lambda>i. Hash (RpcInput.Prog i)) inps)"
  from Cons.prems obtain t where t: "addInput target Hash s inp = Inr t" and r: "addInputs target Hash t inps = Inr s'"
    by (auto split: sum.splits)
  from addInput_corpus(1) [OF t] obtain p where p: "Deserialize target (RpcInput.Prog inp) = Inr p"
    and c: "corpus t = (if ?h |\<in>| corpusHashes s then corpus s else corpus s @ [p])"
    by blast
  have h: "corpusHashes t = finsert ?h (corpusHashes s)"
    by (rule addInput_corpus(2) [OF t])
  from Cons.IH [OF r] obtain ps where
    H: "corpusHashes s' = corpusHashes t |\<union>| ?hs" and
    C: "corpus s' = corpus t @ ps" and
    L: "length ps = fcard (?hs |-| corpusHashes t)" and
    S: "set ps \<subseteq> (\<lambda>i. projr (Deserialize target (RpcInput.Prog i))) ` set inps"
    by blast
  have hashes: "corpusHashes s' = corpusHashes s |\<union>| fset_of_list (map (\<lambda>i. Hash (RpcInput.Prog i)) (inp # inps))"
    using H h by auto
  let ?qs = "(if ?h |\<in>| corpusHashes s then [] else [p]) @ ps"
  have 1: "corpus s' = corpus s @ ?qs"
    using C c by simp
  have 2: "length ?qs = fcard (fset_of_list (map (\<lambda>i. Hash (RpcInput.Prog i)) (inp # inps)) |-| corpusHashes s)"
  proof (cases "?h |\<in>| corpusHashes s")
    case True
    then have "finsert ?h (corpusHashes s) = corpusHashes s" by auto
    with True L h show ?thesis by (simp add: fcard_new_hash)
  next
    case False
    with L h show ?thesis by (simp add: fcard_new_hash)
  qed
  have 3: "set ?qs \<subseteq> (\<lambda>i. projr (Deserialize target (RpcInput.Prog i))) ` set (inp # inps)"
    using S p by auto
  from hashes 1 2 3 show ?case by blast
qed

lemma addCandidates_corpusSignal:
  assumes "addCandidates target s cs = Inr s'"
  shows "corpusSignal s' = corpusSignal s"
  using assms addCandidates_closed [OF addCandidates_ok [OF assms], of s]
  by (auto split: if_splits)

text \<open>
  Claim C7. The loop over the candidates (the same at start-up and after a poll) deserializes
  each of them and, when it returns, has appended the programs to the corpus if coverage
  is disabled and has enqueued them as \<^verbatim>\<open>WorkCandidate\<close> items, in order and with their
  \<^verbatim>\<open>Minimized\<close> flag, otherwise. The loop over the inputs, when it returns, has
  deserialized every input with coverage enabled, has put the hash of every input into
  \<^verbatim>\<open>corpusHashes\<close> and every token of every input's signal into \<^verbatim>\<open>maxSignal\<close> (and into
  \<^verbatim>\<open>corpusSignal\<close> the tokens that were not in \<^verbatim>\<open>maxSignal\<close> before), and has appended
  to the corpus one deserialized input per hash that was new. A poll that returns has
  put the returned max signal into \<^verbatim>\<open>maxSignal\<close>, run the input loop from there and the
  candidate loop from the state so reached, so that its final state holds the returned
  max signal and the hashes and signals of all returned inputs.
\<close>

theorem poll_absorbs_reply:
  "(addCandidates target s cs = Inr t \<longrightarrow>
      list_all (\<lambda>c. \<not> isl (Deserialize target (RpcCandidate.Prog c))) cs \<and>
      (if noCover s
       then corpus t = corpus s @ map (\<lambda>c. projr (Deserialize target (RpcCandidate.Prog c))) cs \<and>
            workQueue t = workQueue s
       else workQueue t = workQueue s @
              map (\<lambda>c. WorkCandidate (projr (Deserialize target (RpcCandidate.Prog c))) (Minimized c)) cs \<and>
            corpus t = corpus s)) \<and>
   (addInputs target Hash a inps = Inr b \<longrightarrow>
      list_all (\<lambda>i. \<not> isl (Deserialize target (RpcInput.Prog i))) inps \<and>
      (inps \<noteq> [] \<longrightarrow> \<not> noCover a) \<and>
      corpusHashes b = corpusHashes a |\<union>| fset_of_list (map (\<lambda>i. Hash (RpcInput.Prog i)) inps) \<and>
      maxSignal b = maxSignal a |\<union>| fset_of_list (concat (map Signal inps)) \<and>
      corpusSignal b = corpusSignal a |\<union>| (fset_of_list (concat (map Signal inps)) |-| maxSignal a) \<and>
      (\<exists>ps. corpus b = corpus a @ ps \<and>
            length ps = fcard (fset_of_list (map (\<lambda>i. Hash (RpcInput.Prog i)) inps) |-| corpusHashes a) \<and>
            set ps \<subseteq> (\<lambda>i. projr (Deserialize target (RpcInput.Prog i))) ` set inps) \<and>
      workQueue b = workQueue a \<and> newSignal b = newSignal a) \<and>
   (pollManager target Hash flagLeak manager nc now s = Inr s' \<longrightarrow>
      (\<exists>r s3 s4.
         manager \<lparr>NeedCandidates = nc, MaxSignal = sorted_list_of_fset (newSignal s)\<rparr> = Inr r \<and>
         addInputs target Hash
           (absorbMaxSignal
              (s\<lparr>newSignal := {||},
                 sent := sent s @ [\<lparr>NeedCandidates = nc, MaxSignal = sorted_list_of_fset (newSignal s)\<rparr>]\<rparr>)
              (PollRes.MaxSignal r))
           (NewInputs r) = Inr s3 \<and>
         addCandidates target s3 (Candidates r) = Inr s4 \<and>
         maxSignal s |\<union>| fset_of_list (PollRes.MaxSignal r) |\<subseteq>| maxSignal s' \<and>
         corpus s' = corpus s4 \<and> workQueue s' = workQueue s4 \<and>
         corpusHashes s' =
           corpusHashes s |\<union>| fset_of_list (map (\<lambda>i. Hash (RpcInput.Prog i)) (NewInputs r)) \<and>
         maxSignal s' =
           maxSignal s |\<union>| fset_of_list (PollRes.MaxSignal r) |\<union>|
           fset_of_list (concat (map Signal (NewInputs r))) \<and>
         corpusSignal s' =
           corpusSignal s |\<union>|
           (fset_of_list (concat (map Signal (NewInputs r))) |-|
            (maxSignal s |\<union>| fset_of_list (PollRes.MaxSignal r)))))"
proof (intro conjI impI)
  assume a: "addCandidates target s cs = Inr t"
  show "list_all (\<lambda>c. \<not> isl (Deserialize target (RpcCandidate.Prog c))) cs"
    by (rule addCandidates_ok [OF a])
  show "if noCover s
       then corpus t = corpus s @ map (\<lambda>c. projr (Deserialize target (RpcCandidate.Prog c))) cs \<and>
            workQueue t = workQueue s
       else workQueue t = workQueue s @
              map (\<lambda>c. WorkCandidate (projr (Deserialize target (RpcCandidate.Prog c))) (Minimized c)) cs \<and>
            corpus t = corpus s"
    using a addCandidates_closed [OF addCandidates_ok [OF a], of s] by (auto split: if_splits)
next
  assume i: "addInputs target Hash a inps = Inr b"
  show "list_all (\<lambda>i. \<not> isl (Deserialize target (RpcInput.Prog i))) inps"
    using addInputs_ok [OF i] by simp
  show "\<not> noCover a" if "inps \<noteq> []"
    using addInputs_ok [OF i] that by simp
  show "corpusHashes b = corpusHashes a |\<union>| fset_of_list (map (\<lambda>i. Hash (RpcInput.Prog i)) inps)"
    using addInputs_corpus [OF i] by simp
  show "maxSignal b = maxSignal a |\<union>| fset_of_list (concat (map Signal inps))"
    using addInputs_signals [OF i] by simp
  show "corpusSignal b = corpusSignal a |\<union>| (fset_of_list (concat (map Signal inps)) |-| maxSignal a)"
    using addInputs_signals [OF i] by simp
  show "\<exists>ps. corpus b = corpus a @ ps \<and>
            length ps = fcard (fset_of_list (map (\<lambda>i. Hash (RpcInput.Prog i)) inps) |-| corpusHashes a) \<and>
            set ps \<subseteq> (\<lambda>i. projr (Deserialize target (RpcInput.Prog i))) ` set inps"
    using addInputs_corpus [OF i] by simp
  show "workQueue b = workQueue a"
    using addInputs_frame [OF i] by simp
  show "newSignal b = newSignal a"
    using addInputs_frame [OF i] by simp
next
  let ?a = "\<lparr>NeedCandidates = nc, MaxSignal = sorted_list_of_fset (newSignal s)\<rparr>"
  assume "pollManager target Hash flagLeak manager nc now s = Inr s'"
  from pollManager_Inr [OF this] obtain r s3 s4 where
    m: "manager ?a = Inr r" and
    i: "addInputs target Hash (absorbMaxSignal (s\<lparr>newSignal := {||}, sent := sent s @ [?a]\<rparr>)
          (PollRes.MaxSignal r)) (NewInputs r) = Inr s3" and
    c: "addCandidates target s3 (Candidates r) = Inr s4" and
    e: "s' = noteLastPoll now r (markTriaged flagLeak r s4)"
    by blast
  let ?s0 = "absorbMaxSignal (s\<lparr>newSignal := {||}, sent := sent s @ [?a]\<rparr>) (PollRes.MaxSignal r)"
  have s0: "maxSignal ?s0 = maxSignal s |\<union>| fset_of_list (PollRes.MaxSignal r)"
    "corpusSignal ?s0 = corpusSignal s" "corpusHashes ?s0 = corpusHashes s"
    by (simp_all add: absorbMaxSignal_max absorbMaxSignal_corpusSignal)
      (simp add: absorbMaxSignal_def)
  have e': "maxSignal s' = maxSignal s4" "corpusSignal s' = corpusSignal s4"
    "corpusHashes s' = corpusHashes s4" "corpus s' = corpus s4" "workQueue s' = workQueue s4"
    unfolding e by (simp_all add: noteLastPoll_def markTriaged_def Let_def)
  have c': "maxSignal s4 = maxSignal s3" "corpusSignal s4 = corpusSignal s3" "corpusHashes s4 = corpusHashes s3"
    using addCandidates_frame [OF c] addCandidates_corpusSignal [OF c] by simp_all
  have h: "corpusHashes s' =
           corpusHashes s |\<union>| fset_of_list (map (\<lambda>i. Hash (RpcInput.Prog i)) (NewInputs r))"
    using addInputs_corpus [OF i] by (simp add: e' c' s0)
  have x: "maxSignal s' =
           maxSignal s |\<union>| fset_of_list (PollRes.MaxSignal r) |\<union>|
           fset_of_list (concat (map Signal (NewInputs r)))"
    using addInputs_signals [OF i] by (simp add: e' c' s0)
  have y: "corpusSignal s' =
           corpusSignal s |\<union>|
           (fset_of_list (concat (map Signal (NewInputs r))) |-|
            (maxSignal s |\<union>| fset_of_list (PollRes.MaxSignal r)))"
    using addInputs_signals [OF i] by (simp add: e' c' s0)
  have z: "maxSignal s |\<union>| fset_of_list (PollRes.MaxSignal r) |\<subseteq>| maxSignal s'"
    unfolding x by auto
  from m i c z e'(4,5) h x y
  show "\<exists>r s3 s4.
         manager ?a = Inr r \<and>
         addInputs target Hash (absorbMaxSignal (s\<lparr>newSignal := {||}, sent := sent s @ [?a]\<rparr>)
           (PollRes.MaxSignal r)) (NewInputs r) = Inr s3 \<and>
         addCandidates target s3 (Candidates r) = Inr s4 \<and>
         maxSignal s |\<union>| fset_of_list (PollRes.MaxSignal r) |\<subseteq>| maxSignal s' \<and>
         corpus s' = corpus s4 \<and> workQueue s' = workQueue s4 \<and>
         corpusHashes s' =
           corpusHashes s |\<union>| fset_of_list (map (\<lambda>i. Hash (RpcInput.Prog i)) (NewInputs r)) \<and>
         maxSignal s' =
           maxSignal s |\<union>| fset_of_list (PollRes.MaxSignal r) |\<union>|
           fset_of_list (concat (map Signal (NewInputs r))) \<and>
         corpusSignal s' =
           corpusSignal s |\<union>|
           (fset_of_list (concat (map Signal (NewInputs r))) |-|
            (maxSignal s |\<union>| fset_of_list (PollRes.MaxSignal r)))"
    by blast
qed

theorem poll_absorbs_reply_witness:
  "\<exists>t b s'. addCandidates exTarget (init :: (byte list, byte list) fuzzer) (Candidates exReply) = Inr t \<and>
     addInputs exTarget exHash (init :: (byte list, byte list) fuzzer) (NewInputs exReply) = Inr b \<and>
     pollManager exTarget exHash False (\<lambda>a. Inr exReply) True 5 (init :: (byte list, byte list) fuzzer) = Inr s' \<and>
     \<not> noCover (init :: (byte list, byte list) fuzzer) \<and>
     workQueue t = [WorkCandidate [2] True] \<and> corpus t = [] \<and>
     corpusHashes b = {|[1]|} \<and> maxSignal b = {|17|} \<and> corpusSignal b = {|17|} \<and>
     corpusHashes s' = {|[1]|} \<and> maxSignal s' = {|17, 42|} \<and> corpusSignal s' = {|17|}"
proof -
  let ?init = "init :: (byte list, byte list) fuzzer"
  have "\<not> isl (addCandidates exTarget ?init (Candidates exReply))"
    by (simp add: exReply_def exTarget_def init_def)
  then obtain t where t: "addCandidates exTarget ?init (Candidates exReply) = Inr t"
    using not_isl_Inr by blast
  have "\<not> isl (addInputs exTarget exHash ?init (NewInputs exReply))"
    by (simp add: exReply_def exTarget_def init_def addInput_def Let_def)
  then obtain b where b: "addInputs exTarget exHash ?init (NewInputs exReply) = Inr b"
    using not_isl_Inr by blast
  have "\<not> isl (pollManager exTarget exHash False (\<lambda>a. Inr exReply) True 5 ?init)"
    by (simp add: pollManager_def drainNewSignal_def exReply_def exTarget_def init_def
        absorbMaxSignal_def addInput_def Let_def)
  then obtain s' where s': "pollManager exTarget exHash False (\<lambda>a. Inr exReply) True 5 ?init = Inr s'"
    using not_isl_Inr by blast
  have n: "\<not> noCover ?init"
    by (simp add: init_def)
  note w = poll_absorbs_reply [where target = exTarget and Hash = exHash and s = ?init and t = t
      and cs = "Candidates exReply" and a = ?init and inps = "NewInputs exReply" and b = b
      and flagLeak = False and manager = "\<lambda>a. Inr exReply"
      and nc = True and now = 5 and s' = s']
  from w t n
  have 1: "workQueue t = workQueue ?init @
          map (\<lambda>c. WorkCandidate (projr (Deserialize exTarget (RpcCandidate.Prog c))) (Minimized c))
            (Candidates exReply) \<and> corpus t = corpus ?init"
    by auto
  from w b
  have 2: "corpusHashes b = corpusHashes ?init |\<union>| fset_of_list (map (\<lambda>i. exHash (RpcInput.Prog i)) (NewInputs exReply)) \<and>
      maxSignal b = maxSignal ?init |\<union>| fset_of_list (concat (map Signal (NewInputs exReply))) \<and>
      corpusSignal b = corpusSignal ?init |\<union>| (fset_of_list (concat (map Signal (NewInputs exReply))) |-| maxSignal ?init)"
    by blast
  from w s'
  have 3: "corpusHashes s' =
           corpusHashes ?init |\<union>| fset_of_list (map (\<lambda>i. exHash (RpcInput.Prog i)) (NewInputs exReply)) \<and>
         maxSignal s' =
           maxSignal ?init |\<union>| fset_of_list (PollRes.MaxSignal exReply) |\<union>|
           fset_of_list (concat (map Signal (NewInputs exReply))) \<and>
         corpusSignal s' =
           corpusSignal ?init |\<union>|
           (fset_of_list (concat (map Signal (NewInputs exReply))) |-|
            (maxSignal ?init |\<union>| fset_of_list (PollRes.MaxSignal exReply)))"
    by auto
  have 1: "workQueue t = [WorkCandidate [2] True] \<and> corpus t = []"
    using 1 by (simp add: init_def exReply_def exTarget_def)
  have 2: "corpusHashes b = {|[1]|} \<and> maxSignal b = {|17|} \<and> corpusSignal b = {|17|}"
    using 2 by (simp add: init_def exReply_def exHash_def)
  have 3: "corpusHashes s' = {|[1]|} \<and> maxSignal s' = {|17, 42|} \<and> corpusSignal s' = {|17|}"
    using 3 by (simp add: init_def exReply_def exHash_def)
  from t b s' n 1 2 3 show ?thesis by blast
qed

section \<open>Draining the new signal\<close>

lemma publish_newSignal:
  "newSignal (fold (\<lambda>d t. publish t d) ds s) = newSignal s |\<union>| fset_of_list (concat ds)"
  by (induction ds arbitrary: s) (auto simp: publish_def SignalAdd_union)

text \<open>
  Claim C4. The drain of a poll copies exactly the tokens of \<^verbatim>\<open>newSignal\<close> into the
  payload, each once, and leaves \<^verbatim>\<open>newSignal\<close> empty and the rest of the state as it
  was; a second drain right after yields the empty payload; after any publications that
  follow a drain, the next drain yields exactly the tokens published since. A poll that
  returns has sent that payload to the manager and left \<^verbatim>\<open>newSignal\<close> empty.
\<close>

theorem drain_law:
  "fset_of_list (fst (drainNewSignal s)) = newSignal s \<and>
   distinct (fst (drainNewSignal s)) \<and>
   snd (drainNewSignal s) = s\<lparr>newSignal := {||}\<rparr> \<and>
   fst (drainNewSignal (snd (drainNewSignal s))) = [] \<and>
   fset_of_list (fst (drainNewSignal (fold (\<lambda>d t. publish t d) ds (snd (drainNewSignal s))))) =
     fset_of_list (concat ds) \<and>
   (pollManager target Hash flagLeak manager nc now s = Inr s' \<longrightarrow>
      newSignal s' = {||} \<and>
      sent s' = sent s @ [\<lparr>NeedCandidates = nc, MaxSignal = fst (drainNewSignal s)\<rparr>])"
proof -
  have e: "sorted_list_of_fset ({||} :: uint32 fset) = []"
    by (simp add: sorted_list_of_fset.rep_eq)
  have d: "distinct (sorted_list_of_fset (newSignal s))"
    by (simp add: sorted_list_of_fset.rep_eq)
  have p: "newSignal s' = {||} \<and>
      sent s' = sent s @ [\<lparr>NeedCandidates = nc, MaxSignal = fst (drainNewSignal s)\<rparr>]"
    if a: "pollManager target Hash flagLeak manager nc now s = Inr s'"
  proof -
    let ?a = "\<lparr>NeedCandidates = nc, MaxSignal = sorted_list_of_fset (newSignal s)\<rparr>"
    from pollManager_Inr [OF a] obtain r s3 s4 where
      i: "addInputs target Hash (absorbMaxSignal (s\<lparr>newSignal := {||}, sent := sent s @ [?a]\<rparr>)
            (PollRes.MaxSignal r)) (NewInputs r) = Inr s3" and
      c: "addCandidates target s3 (Candidates r) = Inr s4" and
      e: "s' = noteLastPoll now r (markTriaged flagLeak r s4)"
      by blast
    have "newSignal s3 = {||} \<and> sent s3 = sent s @ [?a]"
      using addInputs_frame [OF i] by (simp add: absorbMaxSignal_def)
    then have "newSignal s4 = {||} \<and> sent s4 = sent s @ [?a]"
      using addCandidates_frame [OF c] by simp
    then show ?thesis
      using e by (simp add: noteLastPoll_def markTriaged_def Let_def drainNewSignal_def)
  qed
  show ?thesis
    using p by (simp add: drainNewSignal_def e d publish_newSignal)
qed

theorem drain_law_witness:
  "\<exists>s'. pollManager exTarget exHash False (\<lambda>a. Inr exReply) True 5
           ((init :: (byte list, byte list) fuzzer)\<lparr>newSignal := {|42, 17|}\<rparr>) = Inr s' \<and>
     newSignal s' = {||} \<and>
     sent s' = [\<lparr>NeedCandidates = True, MaxSignal = [17, 42]\<rparr>]"
proof -
  let ?s = "(init :: (byte list, byte list) fuzzer)\<lparr>newSignal := {|42, 17|}\<rparr>"
  have "\<not> isl (pollManager exTarget exHash False (\<lambda>a. Inr exReply) True 5 ?s)"
    by (simp add: pollManager_def drainNewSignal_def exReply_def exTarget_def init_def
        absorbMaxSignal_def addInput_def Let_def)
  then obtain s' where s': "pollManager exTarget exHash False (\<lambda>a. Inr exReply) True 5 ?s = Inr s'"
    using not_isl_Inr by blast
  have l: "sorted_list_of_fset ({|42, 17|} :: uint32 fset) = [17, 42]"
    by code_simp
  have d: "fst (drainNewSignal ?s) = [17, 42]"
    by (simp add: drainNewSignal_def l)
  from drain_law [where target = exTarget and Hash = exHash and s = ?s and flagLeak = False
      and manager = "\<lambda>a. Inr exReply" and nc = True and now = 5 and s' = s'] s'
  have "newSignal s' = {||} \<and> sent s' = sent ?s @ [\<lparr>NeedCandidates = True, MaxSignal = fst (drainNewSignal ?s)\<rparr>]"
    by blast
  then have "newSignal s' = {||} \<and> sent s' = [\<lparr>NeedCandidates = True, MaxSignal = [17, 42]\<rparr>]"
    unfolding d by (simp add: init_def)
  with s' show ?thesis by blast
qed

section \<open>The triage flag and the leak scans\<close>

lemma pollManager_triaged:
  assumes "pollManager target Hash flagLeak manager nc now s = Inr s'"
  shows "\<exists>r. manager \<lparr>NeedCandidates = nc, MaxSignal = sorted_list_of_fset (newSignal s)\<rparr> = Inr r \<and>
           allTriaged s' = (if Candidates r = [] \<and> allTriaged s = 0 then 1 else allTriaged s) \<and>
           scans s' = scans s @ (if Candidates r = [] \<and> allTriaged s = 0 \<and> flagLeak then [False] else [])"
proof -
  let ?a = "\<lparr>NeedCandidates = nc, MaxSignal = sorted_list_of_fset (newSignal s)\<rparr>"
  from pollManager_Inr [OF assms] obtain r s3 s4 where
    m: "manager ?a = Inr r" and
    i: "addInputs target Hash (absorbMaxSignal (s\<lparr>newSignal := {||}, sent := sent s @ [?a]\<rparr>)
          (PollRes.MaxSignal r)) (NewInputs r) = Inr s3" and
    c: "addCandidates target s3 (Candidates r) = Inr s4" and
    e: "s' = noteLastPoll now r (markTriaged flagLeak r s4)"
    by blast
  have "allTriaged s3 = allTriaged s \<and> scans s3 = scans s"
    using addInputs_frame [OF i] by (simp add: absorbMaxSignal_def)
  then have f: "allTriaged s4 = allTriaged s \<and> scans s4 = scans s"
    using addCandidates_frame [OF c] by simp
  have "allTriaged s' = (if Candidates r = [] \<and> allTriaged s = 0 then 1 else allTriaged s) \<and>
        scans s' = scans s @ (if Candidates r = [] \<and> allTriaged s = 0 \<and> flagLeak then [False] else [])"
    using f unfolding e by (simp add: noteLastPoll_def markTriaged_def Let_def)
  with m show ?thesis by blast
qed

lemma loopBody_cases:
  assumes "loopBody target Hash flagLeak manager w now wantCandidates now' s = Inr s'"
  shows "s' = s \<or> pollManager target Hash flagLeak manager wantCandidates now' s = Inr s'"
  using assms by (auto simp: loopBody_def Let_def split: if_splits)

lemma step_allTriaged:
  assumes "step target Hash flagLeak s e = Inr s'" and "allTriaged s \<noteq> 0"
  shows "allTriaged s' = allTriaged s"
proof (cases e)
  case (Wake w now wc manager now')
  with assms(1) have "loopBody target Hash flagLeak manager w now wc now' s = Inr s'" by simp
  from loopBody_cases [OF this] assms(2) show ?thesis
    by (auto dest!: pollManager_triaged)
next
  case GateScan
  with assms show ?thesis
    by (auto simp: gateCallback_def leakCallback_def split: if_splits)
next
  case (Publish d)
  with assms show ?thesis by (auto simp: publish_def)
qed

lemma run_allTriaged:
  assumes "run target Hash flagLeak s es = Inr s'" and "allTriaged s \<noteq> 0"
  shows "allTriaged s' = allTriaged s"
  using assms
proof (induction es arbitrary: s)
  case Nil
  then show ?case by simp
next
  case (Cons e es)
  then obtain t where t: "step target Hash flagLeak s e = Inr t" and r: "run target Hash flagLeak t es = Inr s'"
    by (auto split: sum.splits)
  from step_allTriaged [OF t Cons.prems(2)] Cons.IH [OF r] Cons.prems(2) show ?case
    by simp
qed


lemma step_latched:
  assumes "step target Hash flagLeak s e = Inr s'" and "latched flagLeak s"
  shows "latched flagLeak s'"
proof (cases e)
  case (Wake w now wc manager now')
  with assms(1) have "loopBody target Hash flagLeak manager w now wc now' s = Inr s'" by simp
  from loopBody_cases [OF this] show ?thesis
  proof
    assume "s' = s"
    with assms(2) show ?thesis by simp
  next
    assume "pollManager target Hash flagLeak manager wc now' s = Inr s'"
    from pollManager_triaged [OF this] obtain r :: PollRes where
      t: "allTriaged s' = (if Candidates r = [] \<and> allTriaged s = 0 then 1 else allTriaged s)" and
      c: "scans s' = scans s @ (if Candidates r = [] \<and> allTriaged s = 0 \<and> flagLeak then [False] else [])"
      by blast
    show ?thesis
    proof (cases "allTriaged s = 0")
      case True
      with assms(2) have "scans s = []" by (auto simp: latched_def)
      with True t c show ?thesis by (auto simp: latched_def split: if_splits)
    next
      case False
      with t c have "allTriaged s' = allTriaged s" "scans s' = scans s" by auto
      with assms(2) show ?thesis unfolding latched_def by metis
    qed
  qed
next
  case GateScan
  show ?thesis
  proof (cases "flagLeak \<and> allTriaged s \<noteq> 0")
    case True
    with assms(2) have n: "scans s = False # replicate (length (scans s) - 1) True" and one: "allTriaged s = 1"
      by (auto simp: latched_def)
    from True GateScan assms(1) have s': "s' = s\<lparr>scans := scans s @ [True]\<rparr>"
      by (simp add: gateCallback_def leakCallback_def)
    obtain k where k: "scans s = False # replicate k True"
      using n by blast
    have "scans s @ [True] = False # replicate (length (scans s @ [True]) - 1) True"
      unfolding k by (simp add: replicate_append_same)
    with True one show ?thesis unfolding s' by (simp add: latched_def)
  next
    case False
    with GateScan assms(1) have "s' = s"
      by (auto simp: gateCallback_def leakCallback_def split: if_splits)
    with assms(2) show ?thesis by simp
  qed
next
  case (Publish d)
  with assms(1) have "s' = publish s d" by simp
  with assms(2) show ?thesis by (auto simp: publish_def latched_def split: if_splits)
qed

lemma run_latched:
  assumes "run target Hash flagLeak s es = Inr s'" and "latched flagLeak s"
  shows "latched flagLeak s'"
  using assms
proof (induction es arbitrary: s)
  case Nil
  then show ?case by simp
next
  case (Cons e es)
  then obtain t where t: "step target Hash flagLeak s e = Inr t" and r: "run target Hash flagLeak t es = Inr s'"
    by (auto split: sum.splits)
  show ?case
    by (rule Cons.IH [OF r step_latched [OF t Cons.prems(2)]])
qed

text \<open>
  Claim C5. \<^verbatim>\<open>allTriaged\<close> starts at 0. A poll that returns sets it to 1 exactly when the
  reply has no candidates and the flag is still 0, after recording the baseline scan
  \<^verbatim>\<open>kmemleakScan(false)\<close> if leak mode is on, and otherwise leaves flag and scans alone.
  No poll iteration, gate callback or publication changes a flag that is not 0. The leak
  callback scans (\<^verbatim>\<open>kmemleakScan(true)\<close>) exactly when the flag is not 0 and does not touch
  the flag, and without leak mode the gate has no callback. So in every run from the
  initial state either the flag is 0 and nothing was scanned, or the flag is 1 and, in
  leak mode, the scans are the baseline followed by reporting scans.
\<close>

theorem allTriaged_latch:
  "allTriaged (init :: ('p, 'h) fuzzer) = 0 \<and>
   (pollManager target Hash flagLeak manager nc now (s :: ('p, 'h) fuzzer) = Inr s' \<longrightarrow>
      (\<exists>r. manager \<lparr>NeedCandidates = nc, MaxSignal = sorted_list_of_fset (newSignal s)\<rparr> = Inr r \<and>
         allTriaged s' = (if Candidates r = [] \<and> allTriaged s = 0 then 1 else allTriaged s) \<and>
         scans s' = scans s @ (if Candidates r = [] \<and> allTriaged s = 0 \<and> flagLeak then [False] else []))) \<and>
   (run target Hash flagLeak v es = Inr t \<and> allTriaged v \<noteq> 0 \<longrightarrow> allTriaged t = allTriaged v) \<and>
   scans (leakCallback x) = scans x @ (if allTriaged x \<noteq> 0 then [True] else []) \<and>
   allTriaged (leakCallback x) = allTriaged x \<and>
   (gateCallback False :: (('p, 'h) fuzzer \<Rightarrow> ('p, 'h) fuzzer) option) = None \<and>
   (run target Hash flagLeak (init :: ('p, 'h) fuzzer) es' = Inr u \<longrightarrow>
      (allTriaged u = 0 \<and> scans u = []) \<or>
      (allTriaged u = 1 \<and>
       (if flagLeak then scans u = False # replicate (length (scans u) - 1) True else scans u = [])))"
proof -
  have i: "latched flagLeak (init :: ('p, 'h) fuzzer)"
    by (simp add: latched_def init_def)
  have a: "allTriaged (init :: ('p, 'h) fuzzer) = 0"
    by (simp add: init_def)
  have b: "scans (leakCallback x) = scans x @ (if allTriaged x \<noteq> 0 then [True] else []) \<and>
   allTriaged (leakCallback x) = allTriaged x \<and>
   (gateCallback False :: (('p, 'h) fuzzer \<Rightarrow> ('p, 'h) fuzzer) option) = None"
    by (simp add: leakCallback_def gateCallback_def)
  show ?thesis
    using a b run_latched [OF _ i, of target Hash es' u, unfolded latched_def]
      run_allTriaged [of target Hash flagLeak v es t]
      pollManager_triaged [of target Hash flagLeak manager nc now s s']
    by blast
qed


theorem allTriaged_latch_witness:
  "\<exists>s' t u.
     pollManager exTarget exHash True (\<lambda>a. Inr exNothing) False 5 (init :: (byte list, byte list) fuzzer) = Inr s' \<and>
     allTriaged s' = 1 \<and> scans s' = [False] \<and>
     run exTarget exHash True ((init :: (byte list, byte list) fuzzer)\<lparr>allTriaged := 1, scans := [False]\<rparr>)
       [GateScan, Wake Ticker (11 * Second) False (\<lambda>a. Inr exNothing) (12 * Second)] = Inr t \<and>
     allTriaged t = 1 \<and>
     run exTarget exHash True (init :: (byte list, byte list) fuzzer)
       [GateScan, Wake Ticker (11 * Second) False (\<lambda>a. Inr exNothing) (12 * Second), GateScan] = Inr u \<and>
     allTriaged u = 1 \<and> scans u = False # replicate (length (scans u) - 1) True"
proof -
  let ?init = "init :: (byte list, byte list) fuzzer"
  let ?m = "\<lambda>a :: PollArgs. (Inr exNothing :: error + PollRes)"
  let ?v = "?init\<lparr>allTriaged := 1, scans := [False]\<rparr>"
  let ?es = "[GateScan, Wake Ticker (11 * Second) False ?m (12 * Second)]"
  let ?es' = "[GateScan, Wake Ticker (11 * Second) False ?m (12 * Second), GateScan]"
  have "\<not> isl (pollManager exTarget exHash True ?m False 5 ?init)"
    by (simp add: pollManager_def drainNewSignal_def exNothing_def absorbMaxSignal_def Let_def)
  then obtain s' where s': "pollManager exTarget exHash True ?m False 5 ?init = Inr s'"
    using not_isl_Inr by blast
  have "\<not> isl (run exTarget exHash True ?v ?es)"
    by (simp add: gateCallback_def loopBody_def Since_def Second_def init_def
        pollManager_def drainNewSignal_def exNothing_def absorbMaxSignal_def Let_def)
  then obtain t where t: "run exTarget exHash True ?v ?es = Inr t"
    using not_isl_Inr by blast
  have "\<not> isl (run exTarget exHash True ?init ?es')"
    by (simp add: gateCallback_def loopBody_def Since_def Second_def init_def
        pollManager_def drainNewSignal_def exNothing_def absorbMaxSignal_def Let_def)
  then obtain u where u: "run exTarget exHash True ?init ?es' = Inr u"
    using not_isl_Inr by blast
  have v: "allTriaged ?v \<noteq> 0" "allTriaged ?v = 1"
    by simp_all
  have i: "allTriaged ?init = 0" "scans ?init = []"
    by (simp_all add: init_def)
  have n: "Candidates exNothing = []"
    by (simp add: exNothing_def)
  have g: "\<not> (allTriaged u = 0 \<and> scans u = [])"
  proof -
    have "scans u \<noteq> []"
      using u
      by (auto simp: gateCallback_def leakCallback_def loopBody_def Since_def Second_def init_def
          pollManager_def drainNewSignal_def exNothing_def absorbMaxSignal_def noteLastPoll_def
          markTriaged_def Let_def)
    then show ?thesis by simp
  qed
  from allTriaged_latch [where target = exTarget and Hash = exHash and flagLeak = True
      and manager = ?m and nc = False and now = 5 and s = ?init and s' = s' and v = ?v
      and es = ?es and t = t and es' = ?es' and u = u] s' t u v i n g
  have "allTriaged s' = 1 \<and> scans s' = [False] \<and> allTriaged t = 1 \<and>
        allTriaged u = 1 \<and> scans u = False # replicate (length (scans u) - 1) True"
    by auto
  with s' t u show ?thesis by blast
qed

section \<open>When the loop polls\<close>

lemma pollManager_sent:
  assumes "pollManager target Hash flagLeak manager nc now s = Inr s'"
  shows "\<exists>r. manager \<lparr>NeedCandidates = nc, MaxSignal = sorted_list_of_fset (newSignal s)\<rparr> = Inr r \<and>
           sent s' = sent s @ [\<lparr>NeedCandidates = nc, MaxSignal = sorted_list_of_fset (newSignal s)\<rparr>] \<and>
           lastPoll s' = (if NewInputs r = [] \<and> Candidates r = [] then now else lastPoll s)"
proof -
  let ?a = "\<lparr>NeedCandidates = nc, MaxSignal = sorted_list_of_fset (newSignal s)\<rparr>"
  from pollManager_Inr [OF assms] obtain r s3 s4 where
    m: "manager ?a = Inr r" and
    i: "addInputs target Hash (absorbMaxSignal (s\<lparr>newSignal := {||}, sent := sent s @ [?a]\<rparr>)
          (PollRes.MaxSignal r)) (NewInputs r) = Inr s3" and
    c: "addCandidates target s3 (Candidates r) = Inr s4" and
    e: "s' = noteLastPoll now r (markTriaged flagLeak r s4)"
    by blast
  have "sent s3 = sent s @ [?a] \<and> lastPoll s3 = lastPoll s"
    using addInputs_frame [OF i] by (simp add: absorbMaxSignal_def)
  then have f: "sent s4 = sent s @ [?a] \<and> lastPoll s4 = lastPoll s"
    using addCandidates_frame [OF c] by simp
  have "sent s' = sent s @ [?a] \<and>
        lastPoll s' = (if NewInputs r = [] \<and> Candidates r = [] then now else lastPoll s)"
    using f unfolding e by (simp add: noteLastPoll_def markTriaged_def Let_def)
  with m show ?thesis by blast
qed

text \<open>
  Claim C2, as the code has it. An iteration of the poll loop that returns has polled the
  manager exactly when the \<^verbatim>\<open>needPoll\<close> pulse woke it and the queue wants candidates, or
  the ticker woke it and more than 10 seconds have passed since \<^verbatim>\<open>lastPoll\<close>. It has set
  \<^verbatim>\<open>lastPoll\<close> to the current time exactly when it polled and the reply held neither new
  inputs nor candidates.
\<close>

theorem poll_decision:
  assumes "loopBody target Hash flagLeak manager w now wantCandidates now' s = Inr s'"
  shows "sent s' = sent s @
           (if (w = NeedPoll \<and> wantCandidates) \<or> (w = Ticker \<and> Since now (lastPoll s) > 10 * Second)
            then [\<lparr>NeedCandidates = wantCandidates, MaxSignal = sorted_list_of_fset (newSignal s)\<rparr>]
            else []) \<and>
         lastPoll s' =
           (if ((w = NeedPoll \<and> wantCandidates) \<or> (w = Ticker \<and> Since now (lastPoll s) > 10 * Second)) \<and>
               (case manager \<lparr>NeedCandidates = wantCandidates, MaxSignal = sorted_list_of_fset (newSignal s)\<rparr> of
                  Inl err \<Rightarrow> False
                | Inr r \<Rightarrow> NewInputs r = [] \<and> Candidates r = [])
            then now' else lastPoll s)"
proof (cases "(w = NeedPoll \<and> wantCandidates) \<or> (w = Ticker \<and> Since now (lastPoll s) > 10 * Second)")
  case True
  then have "loopBody target Hash flagLeak manager w now wantCandidates now' s =
             pollManager target Hash flagLeak manager wantCandidates now' s"
    by (auto simp: loopBody_def Let_def)
  with assms have "pollManager target Hash flagLeak manager wantCandidates now' s = Inr s'"
    by simp
  from pollManager_sent [OF this] True show ?thesis
    by auto
next
  case False
  then have "loopBody target Hash flagLeak manager w now wantCandidates now' s = Inr s"
    by (cases w) (auto simp: loopBody_def Let_def)
  with assms False show ?thesis by auto
qed

theorem poll_decision_witness:
  "\<exists>s'. loopBody exTarget exHash False exManager Ticker (11 * Second) False (12 * Second)
          (init :: (byte list, byte list) fuzzer) = Inr s' \<and>
     sent s' = [\<lparr>NeedCandidates = False, MaxSignal = []\<rparr>] \<and> lastPoll s' = 12 * Second"
proof -
  let ?init = "init :: (byte list, byte list) fuzzer"
  have "\<not> isl (loopBody exTarget exHash False exManager Ticker (11 * Second) False (12 * Second) ?init)"
    by (simp add: loopBody_def Since_def Second_def init_def Let_def exManager_def
        pollManager_def drainNewSignal_def exNothing_def absorbMaxSignal_def)
  then obtain s' where s': "loopBody exTarget exHash False exManager Ticker (11 * Second) False (12 * Second) ?init = Inr s'"
    using not_isl_Inr by blast
  have e: "sorted_list_of_fset (newSignal ?init) = []"
    by (simp add: init_def sorted_list_of_fset.rep_eq)
  have c: "Since (11 * Second) (lastPoll ?init) > 10 * Second"
    by (simp add: Since_def Second_def init_def)
  from poll_decision [OF s'] c
  have "sent s' = [\<lparr>NeedCandidates = False, MaxSignal = []\<rparr>] \<and> lastPoll s' = 12 * Second"
    unfolding e by (simp add: exManager_def exNothing_def init_def)
  with s' show ?thesis by blast
qed

text \<open>
  The claim as written fails in a state whose last idle poll was at second 100: woken by
  the pulse at second 111 while the queue wants no candidates, woken by the ticker at
  second 105 while the queue wants candidates, and woken by the ticker at second 110,
  exactly 10 seconds after \<^verbatim>\<open>lastPoll\<close>, the loop goes round without polling and leaves
  the state as it is.
\<close>

theorem poll_decision_counterexample:
  "loopBody exTarget exHash False exManager NeedPoll (111 * Second) False (112 * Second) exIdle
     = Inr exIdle \<and>
   Since (111 * Second) (lastPoll exIdle) \<ge> 10 * Second \<and>
   loopBody exTarget exHash False exManager Ticker (105 * Second) True (106 * Second) exIdle
     = Inr exIdle \<and>
   loopBody exTarget exHash False exManager Ticker (110 * Second) False (111 * Second) exIdle
     = Inr exIdle \<and>
   Since (110 * Second) (lastPoll exIdle) \<ge> 10 * Second"
  by (simp add: loopBody_def Since_def Second_def exIdle_def Let_def)

section \<open>The list of enabled calls\<close>

lemma enableCalls_closed:
  "enableCalls target ids calls =
     (if list_ex (\<lambda>i. isl (ParseUint i) \<or> projr (ParseUint i) \<ge> length (Syscalls target)) ids
      then enableCalls target ids calls
      else Inr (calls |\<union>| fset_of_list (map (\<lambda>i. Syscalls target ! projr (ParseUint i)) ids)))"
  by (induction ids arbitrary: calls) (auto split: sum.splits)

lemma enableCalls_isl:
  "isl (enableCalls target ids calls) =
     list_ex (\<lambda>i. isl (ParseUint i) \<or> projr (ParseUint i) \<ge> length (Syscalls target)) ids"
  by (induction ids arbitrary: calls) (auto split: sum.splits)

lemma ffilter_member: "ffilter (\<lambda>c. c |\<in>| B) A = A |\<inter>| B"
  by auto

text \<open>
  Claim C6, as the code has it. buildCallList panics exactly when \<^verbatim>\<open>enabledCalls\<close> is not
  empty and one of its comma-separated ids fails to parse or is not below the number of
  syscalls. Otherwise it returns the enabled calls (those named by the ids, or all of the
  target's when the string is empty), restricted to the host-supported calls if the
  detection succeeded and left as they are if it failed, and then restricted to the calls
  that are transitively enabled among the calls so obtained.
\<close>

theorem buildCallList_result:
  "(buildCallList target detect enabledCalls = Inr calls \<longrightarrow>
      calls =
        (let enabled = (if enabledCalls = [] then fset_of_list (Syscalls target)
                        else fset_of_list (map (\<lambda>i. Syscalls target ! projr (ParseUint i))
                                             (Split enabledCalls CHR '','')));
             supported = (case snd detect of None \<Rightarrow> enabled |\<inter>| fst detect | Some err \<Rightarrow> enabled)
         in supported |\<inter>| TransitivelyEnabledCalls target supported)) \<and>
   isl (buildCallList target detect enabledCalls) =
     (enabledCalls \<noteq> [] \<and>
      list_ex (\<lambda>i. isl (ParseUint i) \<or> projr (ParseUint i) \<ge> length (Syscalls target))
        (Split enabledCalls CHR '',''))"
proof (cases "enabledCalls \<noteq> [] \<and>
      list_ex (\<lambda>i. isl (ParseUint i) \<or> projr (ParseUint i) \<ge> length (Syscalls target))
        (Split enabledCalls CHR '','')")
  case True
  then have "isl (enableCalls target (Split enabledCalls CHR '','') {||})"
    by (simp add: enableCalls_isl)
  then obtain e where "enableCalls target (Split enabledCalls CHR '','') {||} = Inl e"
    by (cases "enableCalls target (Split enabledCalls CHR '','') {||}") auto
  with True have "buildCallList target detect enabledCalls = Inl e"
    by (simp add: buildCallList_def)
  with True show ?thesis by simp
next
  case False
  define enabled where "enabled = (if enabledCalls = [] then fset_of_list (Syscalls target)
                        else fset_of_list (map (\<lambda>i. Syscalls target ! projr (ParseUint i))
                                             (Split enabledCalls CHR '','')))"
  have en: "(if enabledCalls \<noteq> [] then enableCalls target (Split enabledCalls CHR '','') {||}
            else Inr (fold finsert (Syscalls target) {||})) = Inr enabled"
  proof (cases "enabledCalls = []")
    case True
    then show ?thesis by (simp add: enabled_def fold_finsert_union)
  next
    case ne: False
    with False have "\<not> list_ex (\<lambda>i. isl (ParseUint i) \<or> projr (ParseUint i) \<ge> length (Syscalls target))
        (Split enabledCalls CHR '','')"
      by simp
    then have "enableCalls target (Split enabledCalls CHR '','') {||} =
        Inr ({||} |\<union>| fset_of_list (map (\<lambda>i. Syscalls target ! projr (ParseUint i)) (Split enabledCalls CHR '','')))"
      by (subst enableCalls_closed) simp
    with ne show ?thesis by (simp add: enabled_def)
  qed
  obtain supp err where d: "detect = (supp, err)"
    by (cases detect)
  have "buildCallList target detect enabledCalls =
        Inr (let supported = (case snd detect of None \<Rightarrow> enabled |\<inter>| fst detect | Some err \<Rightarrow> enabled)
             in supported |\<inter>| TransitivelyEnabledCalls target supported)"
    unfolding buildCallList_def en d
    by (cases err) (simp_all add: Let_def ffilter_member)
  with False show ?thesis
    unfolding enabled_def [symmetric] by (auto simp: Let_def)
qed

theorem buildCallList_result_witness:
  "buildCallList exTarget ({|1, 2|}, None) ''0,1,2'' = Inr {|2|} \<and>
   buildCallList exTarget ({||}, Some ''no kallsyms'') [] = Inr {|0, 1, 2|} \<and>
   isl (buildCallList exTarget ({|1, 2|}, None) ''0,x'') \<and>
   isl (buildCallList exTarget ({|1, 2|}, None) ''0,3'')"
proof -
  have a: "\<not> isl (buildCallList exTarget ({|1, 2|}, None) ''0,1,2'')"
    by (simp add: buildCallList_def ParseUint_def exTarget_def Let_def)
  then obtain c1 where c1: "buildCallList exTarget ({|1, 2|}, None) ''0,1,2'' = Inr c1"
    using not_isl_Inr by blast
  have b: "\<not> isl (buildCallList exTarget ({||}, Some ''no kallsyms'') [])"
    by (simp add: buildCallList_def ParseUint_def exTarget_def Let_def)
  then obtain c2 where c2: "buildCallList exTarget ({||}, Some ''no kallsyms'') [] = Inr c2"
    using not_isl_Inr by blast
  have s: "Split ''0,1,2'' CHR '','' = [''0'', ''1'', ''2'']" "Split ''0,x'' CHR '','' = [''0'', ''x'']"
    "Split ''0,3'' CHR '','' = [''0'', ''3'']"
    by simp_all
  have p: "ParseUint ''0'' = Inr 0" "ParseUint ''1'' = Inr 1" "ParseUint ''2'' = Inr 2"
    "ParseUint ''3'' = Inr 3" "isl (ParseUint ''x'')"
    by (simp_all add: ParseUint_def)
  have "c1 = {|2|}"
    using buildCallList_result [of exTarget "({|1, 2|}, None)" "''0,1,2''" c1] c1
    unfolding s by (auto simp: p Let_def exTarget_def)
  moreover have "c2 = {|0, 1, 2|}"
    using buildCallList_result [of exTarget "({||}, Some ''no kallsyms'')" "[]" c2] c2
    by (auto simp: Let_def exTarget_def)
  moreover have "isl (buildCallList exTarget ({|1, 2|}, None) ''0,x'')"
    using buildCallList_result [of exTarget "({|1, 2|}, None)" "''0,x''" c1]
    unfolding s by (simp add: p exTarget_def)
  moreover have "isl (buildCallList exTarget ({|1, 2|}, None) ''0,3'')"
    using buildCallList_result [of exTarget "({|1, 2|}, None)" "''0,3''" c1]
    unfolding s by (simp add: p exTarget_def)
  ultimately show ?thesis using c1 c2 by simp
qed

text \<open>
  The claim as written fails when the detection of host support fails: the two enabled
  calls are both returned, although the detection returned no supported call at all.
\<close>

theorem buildCallList_counterexample:
  "buildCallList exTarget ({||}, Some ''no kallsyms'') ''0,1'' = Inr {|0, 1|} \<and>
   {|0, 1|} \<noteq> {|0, 1|} |\<inter>| ({||} :: nat fset) |\<inter>| TransitivelyEnabledCalls exTarget ({|0, 1|} |\<inter>| {||})"
  by (auto simp: buildCallList_def ParseUint_def exTarget_def Let_def)


end
